theory Spec2Isabelle
  imports Main "HOL-Library.Word" "HOL-Library.Sublist"
begin

unbundle bit_operations_syntax

section \<open>The AMF0 decoder of package amf0 (src/amf0/amf.go)\<close>

text \<open>
  Package \<^verbatim>\<open>amf0\<close> decodes one AMF0 value per call of \<^verbatim>\<open>Parser.Parse\<close>.
  The embedding below follows the Go source function by function and keeps its names.
  What Go leaves implicit is written out:
  \<^item> a \<^verbatim>\<open>panic\<close> is an error value; the functions below \<^verbatim>\<open>Parse\<close> return it
    together with the parser as it stands at that moment, and \<^verbatim>\<open>Parse\<close> turns it into
    its \<^verbatim>\<open>err\<close> result as its deferred \<^verbatim>\<open>recover\<close> does;
  \<^item> the receiver \<^verbatim>\<open>p *Parser\<close> is passed in and returned;
  \<^item> the \<^verbatim>\<open>io.Reader\<close> is the finite list of bytes it will still deliver, after which it
    reports end of file (the behaviour of a \<^verbatim>\<open>bytes.Reader\<close>); other I/O errors and
    readers that never end are outside the model;
  \<^item> a \<^verbatim>\<open>*Value\<close> is modelled by the value it points to: a Value is written only by the
    \<^verbatim>\<open>parseValue\<close> call it was created for, and is stored in a parent or in
    \<^verbatim>\<open>p.references\<close> only when that call has finished with it, so no write is ever seen
    through an alias;
  \<^item> a \<^verbatim>\<open>float64\<close> is its IEEE-754 bit pattern, which is what
    \<^verbatim>\<open>math.Float64frombits\<close> receives;
  \<^item> Go's \<^verbatim>\<open>int\<close> is 64 bits wide; it is modelled by \<open>int\<close> and \<open>nat\<close>, which agrees
    with the machine as long as fewer than \<open>2 ^ 63\<close> bytes are read.
\<close>

subsection \<open>Markers, values, errors and the parser\<close>

type_synonym byte = "8 word"

type_synonym Marker = byte

text \<open>
  A Go \<^verbatim>\<open>string\<close> is an immutable sequence of bytes; \<^verbatim>\<open>string(data)\<close> keeps the bytes as they are.
\<close>

type_synonym gostring = "byte list"

definition Number :: Marker where "Number = 0x00"
definition Boolean :: Marker where "Boolean = 0x01"
definition String :: Marker where "String = 0x02"
definition Object :: Marker where "Object = 0x03"
definition Movieclip :: Marker where "Movieclip = 0x04"
definition Null :: Marker where "Null = 0x05"
definition Undefined :: Marker where "Undefined = 0x06"
definition Reference :: Marker where "Reference = 0x07"
definition ECMAArray :: Marker where "ECMAArray = 0x08"
definition ObjectEnd :: Marker where "ObjectEnd = 0x09"
definition StrictArray :: Marker where "StrictArray = 0x0A"
definition Date :: Marker where "Date = 0x0B"
definition LongString :: Marker where "LongString = 0x0C"
definition Unsupported :: Marker where "Unsupported = 0x0D"
definition Recordset :: Marker where "Recordset = 0x0E"
definition XmlDocument :: Marker where "XmlDocument = 0x0F"
definition TypedObject :: Marker where "TypedObject = 0x10"
definition AvmPlusObject :: Marker where "AvmPlusObject = 0x11"

lemmas Marker_defs =
  Number_def Boolean_def String_def Object_def Movieclip_def Null_def Undefined_def
  Reference_def ECMAArray_def ObjectEnd_def StrictArray_def Date_def LongString_def
  Unsupported_def Recordset_def XmlDocument_def TypedObject_def AvmPlusObject_def

text \<open>
  \<^verbatim>\<open>Value.Value\<close> has type \<^verbatim>\<open>interface{}\<close>; the decoder stores in it \<^verbatim>\<open>nil\<close>, a
  \<^verbatim>\<open>float64\<close>, a \<^verbatim>\<open>bool\<close>, a \<^verbatim>\<open>string\<close> or a \<^verbatim>\<open>[]*Value\<close>, and nothing else.
\<close>

datatype 'v any = Nil | Float64 "64 word" | Bool bool | Str gostring | Values "'v list"

datatype Value = MkValue (Marker: Marker) (Name: gostring) (Value: "Value any")

text \<open>
  Field assignments \<^verbatim>\<open>value.Marker = m\<close>, \<^verbatim>\<open>value.Name = n\<close> and \<^verbatim>\<open>value.Value = x\<close>.
\<close>

definition set_Marker :: "Value \<Rightarrow> Marker \<Rightarrow> Value" where
  "set_Marker v m = MkValue m (Name v) (Value v)"

definition set_Name :: "Value \<Rightarrow> gostring \<Rightarrow> Value" where
  "set_Name v n = MkValue (Marker v) n (Value v)"

definition set_Value :: "Value \<Rightarrow> Value any \<Rightarrow> Value" where
  "set_Value v x = MkValue (Marker v) (Name v) x"

text \<open>
  The values \<^verbatim>\<open>Parse\<close> can recover from a panic. \<open>EOF\<close> and \<open>ErrUnexpectedEOF\<close> are
  the errors of \<^verbatim>\<open>io.ReadFull\<close> (the spec's ShortRead); \<open>MakesliceLenOutOfRange\<close> is the
  run-time error of \<^verbatim>\<open>make([]byte, length)\<close> for a negative length. The other four stand for
  the panics raised with a message: "reference index is greater, than the amount of available
  reference objects" (\<open>InvalidReference\<close>), the panic of \<^verbatim>\<open>parseProperties\<close> for a
  zero-length key that is not followed by \<^verbatim>\<open>ObjectEnd\<close> (\<open>MalformedStream\<close>),
  "unsupported type %d" (\<open>UnsupportedType\<close>) and "amf3 is not supported"
  (\<open>UnsupportedVersion\<close>).
\<close>

datatype error =
    EOF | ErrUnexpectedEOF | MakesliceLenOutOfRange
  | InvalidReference | MalformedStream | UnsupportedType Marker | UnsupportedVersion

record Parser =
  reader :: "byte list"
  references :: "Value list"
  bytesRead :: int

definition New :: "byte list \<Rightarrow> Parser" where
  "New r = \<lparr>reader = r, references = [], bytesRead = 0\<rparr>"

subsection \<open>Reading bytes\<close>

text \<open>
  \<^verbatim>\<open>binary.BigEndian.Uint16\<close>, \<^verbatim>\<open>Uint32\<close> and \<^verbatim>\<open>Uint64\<close> of package
  \<^verbatim>\<open>encoding/binary\<close>, as that package defines them. They are applied to slices of
  length 2, 4 and 8 only.
\<close>

definition Uint16 :: "byte list \<Rightarrow> 16 word" where
  "Uint16 b = ucast (b ! 1) OR push_bit 8 (ucast (b ! 0))"

definition Uint32 :: "byte list \<Rightarrow> 32 word" where
  "Uint32 b = ucast (b ! 3) OR push_bit 8 (ucast (b ! 2)) OR push_bit 16 (ucast (b ! 1))
     OR push_bit 24 (ucast (b ! 0))"

definition Uint64 :: "byte list \<Rightarrow> 64 word" where
  "Uint64 b = ucast (b ! 7) OR push_bit 8 (ucast (b ! 6)) OR push_bit 16 (ucast (b ! 5))
     OR push_bit 24 (ucast (b ! 4)) OR push_bit 32 (ucast (b ! 3)) OR push_bit 40 (ucast (b ! 2))
     OR push_bit 48 (ucast (b ! 1)) OR push_bit 56 (ucast (b ! 0))"

text \<open>
  \<^verbatim>\<open>readBytes\<close>: \<^verbatim>\<open>io.ReadFull\<close> fills the buffer or returns the number \<open>n\<close> of bytes
  it obtained with \<^verbatim>\<open>io.EOF\<close> (\<open>n = 0\<close>) or \<^verbatim>\<open>io.ErrUnexpectedEOF\<close>; a buffer of
  length 0 is filled without reading. The counter is advanced by \<open>n\<close> before the error is
  looked at. \<^verbatim>\<open>make([]byte, length)\<close> panics for a negative length; for any other length
  the allocation is taken to succeed.
\<close>

definition readBytes :: "int \<Rightarrow> Parser \<Rightarrow> (error + byte list) \<times> Parser" where
  "readBytes len p =
     (if len < 0 then (Inl MakesliceLenOutOfRange, p)
      else
        let n = min (nat len) (length (reader p));
            p' = p\<lparr>reader := drop n (reader p), bytesRead := bytesRead p + int n\<rparr>
        in if n < nat len then (Inl (if n = 0 then EOF else ErrUnexpectedEOF), p')
           else (Inr (take n (reader p)), p'))"

definition readDouble :: "Parser \<Rightarrow> (error + 64 word) \<times> Parser" where
  "readDouble p =
     (case readBytes 8 p of
        (Inl e, p') \<Rightarrow> (Inl e, p')
      | (Inr data, p') \<Rightarrow> (Inr (Uint64 data), p'))"

text \<open>
  \<^verbatim>\<open>readString\<close>: \<^verbatim>\<open>nameLength\<close> is an \<^verbatim>\<open>int32\<close>. The conversion from
  \<^verbatim>\<open>uint16\<close> keeps the value; the conversion from \<^verbatim>\<open>uint32\<close> reinterprets the bits, so
  a length of \<open>2 ^ 31\<close> or more becomes negative.
\<close>

definition readString :: "Marker \<Rightarrow> Parser \<Rightarrow> (error + gostring \<times> int) \<times> Parser" where
  "readString marker p =
     (case (if marker = String then
              (case readBytes 2 p of
                 (Inl e, p') \<Rightarrow> (Inl e, p')
               | (Inr data, p') \<Rightarrow> (Inr (uint (Uint16 data)), p'))
            else if marker = LongString \<or> marker = XmlDocument then
              (case readBytes 4 p of
                 (Inl e, p') \<Rightarrow> (Inl e, p')
               | (Inr data, p') \<Rightarrow> (Inr (sint (Uint32 data)), p'))
            else (Inr 0, p)) of
        (Inl e, p') \<Rightarrow> (Inl e, p')
      | (Inr nameLength, p') \<Rightarrow>
          (case readBytes nameLength p' of
             (Inl e, p'') \<Rightarrow> (Inl e, p'')
           | (Inr data, p'') \<Rightarrow> (Inr (data, nameLength), p'')))"

subsection \<open>The recursive decoder\<close>

text \<open>
  \<^verbatim>\<open>parseValue\<close> returns the panic, if any, the Value it was given as it stands when the
  call ends, and the parser. The loop of the \<^verbatim>\<open>StrictArray\<close> case is \<open>parseArray\<close>, with the
  loop variables \<^verbatim>\<open>i\<close> and \<^verbatim>\<open>values\<close> as arguments; \<open>len\<close> is
  \<^verbatim>\<open>int(binary.BigEndian.Uint32(data))\<close>, which is not negative where \<^verbatim>\<open>int\<close> has 64 bits.
  \<open>parseProperties\<close> is the loop of the Go function of that name, with its variable
  \<^verbatim>\<open>properties\<close> as argument; the function itself is \<open>parseProperties []\<close>.
\<close>

function parseValue :: "Value \<Rightarrow> Parser \<Rightarrow> error option \<times> Value \<times> Parser"
  and parseArray :: "nat \<Rightarrow> nat \<Rightarrow> Marker \<Rightarrow> Value list \<Rightarrow> Parser \<Rightarrow> (error + Value list) \<times> Parser"
  and parseProperties :: "Value list \<Rightarrow> Parser \<Rightarrow> (error + Value list) \<times> Parser"
where
  "parseValue value p =
     (if Marker value = Number then
        (case readDouble p of
           (Inl e, p') \<Rightarrow> (Some e, value, p')
         | (Inr d, p') \<Rightarrow> (None, set_Value value (Float64 d), p'))
      else if Marker value = Boolean then
        (case readBytes 1 p of
           (Inl e, p') \<Rightarrow> (Some e, value, p')
         | (Inr data, p') \<Rightarrow> (None, set_Value value (Bool (data ! 0 \<noteq> 0)), p'))
      else if Marker value = LongString \<or> Marker value = XmlDocument \<or> Marker value = String then
        (case readString (Marker value) p of
           (Inl e, p') \<Rightarrow> (Some e, value, p')
         | (Inr (str, _), p') \<Rightarrow> (None, set_Value value (Str str), p'))
      else if Marker value = Object then
        (case parseProperties [] p of
           (Inl e, p') \<Rightarrow> (Some e, value, p')
         | (Inr properties, p') \<Rightarrow>
             (let value' = set_Value value (Values properties)
              in (None, value', p'\<lparr>references := references p' @ [value']\<rparr>)))
      else if Marker value = Null \<or> Marker value = Undefined then
        (None, set_Value value Nil, p)
      else if Marker value = Reference then
        (case readBytes 2 p of
           (Inl e, p') \<Rightarrow> (Some e, value, p')
         | (Inr data, p') \<Rightarrow>
             (let index = Uint16 data
              in if uint index > int (length (references p')) - 1 then (Some InvalidReference, value, p')
                 else (let ref = references p' ! unat index
                       in (None, set_Marker (set_Value value (Value ref)) (Marker ref), p'))))
      else if Marker value = ECMAArray then
        (case readBytes 4 p of
           (Inl e, p') \<Rightarrow> (Some e, value, p')
         | (Inr _, p') \<Rightarrow>
             (case parseProperties [] p' of
                (Inl e, p'') \<Rightarrow> (Some e, value, p'')
              | (Inr properties, p'') \<Rightarrow>
                  (let value' = set_Value value (Values properties)
                   in (None, value', p''\<lparr>references := references p'' @ [value']\<rparr>))))
      else if Marker value = StrictArray then
        (case readBytes 4 p of
           (Inl e, p') \<Rightarrow> (Some e, value, p')
         | (Inr data, p') \<Rightarrow>
             (let len = unat (Uint32 data)
              in case readBytes 1 p' of
                   (Inl e, p'') \<Rightarrow> (Some e, value, p'')
                 | (Inr data', p'') \<Rightarrow>
                     (let arrayMarker = data' ! 0
                      in case parseArray 0 len arrayMarker [] p'' of
                           (Inl e, p''') \<Rightarrow> (Some e, value, p''')
                         | (Inr values, p''') \<Rightarrow> (None, set_Value value (Values values), p'''))))
      else if Marker value = Date then
        (case readBytes 2 p of
           (Inl e, p') \<Rightarrow> (Some e, value, p')
         | (Inr _, p') \<Rightarrow>
             (case readBytes 8 p' of
                (Inl e, p'') \<Rightarrow> (Some e, value, p'')
              | (Inr data, p'') \<Rightarrow> (None, set_Value value (Float64 (Uint64 data)), p'')))
      else if Marker value = TypedObject then
        (case readString String p of
           (Inl e, p') \<Rightarrow> (Some e, value, p')
         | (Inr (name, _), p') \<Rightarrow>
             (let value' = set_Name value name
              in case parseProperties [] p' of
                   (Inl e, p'') \<Rightarrow> (Some e, value', p'')
                 | (Inr properties, p'') \<Rightarrow>
                     (let value'' = set_Value value' (Values properties)
                      in (None, value'', p''\<lparr>references := references p'' @ [value'']\<rparr>))))
      else if Marker value = AvmPlusObject then
        (Some UnsupportedVersion, value, p)
      else if Marker value = Unsupported \<or> Marker value = Recordset \<or> Marker value = Movieclip then
        (Some (UnsupportedType (Marker value)), value, p)
      else (None, value, p))"
| "parseArray i len arrayMarker values p =
     (if i < len then
        (case parseValue (MkValue arrayMarker [] Nil) p of
           (Some e, _, p') \<Rightarrow> (Inl e, p')
         | (None, arrayValue, p') \<Rightarrow> parseArray (i + 1) len arrayMarker (values @ [arrayValue]) p')
      else (Inr values, p))"
| "parseProperties properties p =
     (case readString String p of
        (Inl e, p') \<Rightarrow> (Inl e, p')
      | (Inr (name, nameLength), p') \<Rightarrow>
          (if nameLength = 0 then
             (case readBytes 1 p' of
                (Inl e, p'') \<Rightarrow> (Inl e, p'')
              | (Inr data, p'') \<Rightarrow>
                  (if data ! 0 = ObjectEnd then (Inr properties, p'') else (Inl MalformedStream, p'')))
           else
             (case readBytes 1 p' of
                (Inl e, p'') \<Rightarrow> (Inl e, p'')
              | (Inr data, p'') \<Rightarrow>
                  (case parseValue (MkValue (data ! 0) name Nil) p'' of
                     (Some e, _, p''') \<Rightarrow> (Inl e, p''')
                   | (None, property, p''') \<Rightarrow> parseProperties (properties @ [property]) p'''))))"
  by pat_completeness auto

text \<open>
  Termination. No call makes the list of remaining bytes longer, and between a call of
  \<open>parseValue\<close> and the next one nested in it the list gets shorter or the loop counter
  of \<open>parseArray\<close> advances. That the parser returned by a call has no more bytes left than
  the one it received is first shown on the domain of the functions.
\<close>

lemma readBytes_reader_le: "readBytes n p = (r, p') \<Longrightarrow> length (reader p') \<le> length (reader p)"
  by (auto simp: readBytes_def Let_def split: if_splits)

lemma readBytes_Inr:
  "readBytes n p = (Inr d, p') \<Longrightarrow>
     0 \<le> n \<and> nat n \<le> length (reader p) \<and> d = take (nat n) (reader p) \<and>
     p' = p\<lparr>reader := drop (nat n) (reader p), bytesRead := bytesRead p + n\<rparr>"
  by (auto simp: readBytes_def Let_def min_def split: if_splits)

lemma readDouble_reader_le: "readDouble p = (r, p') \<Longrightarrow> length (reader p') \<le> length (reader p)"
  by (auto simp: readDouble_def split: prod.splits sum.splits dest: readBytes_reader_le)

lemma readString_reader_le: "readString m p = (r, p') \<Longrightarrow> length (reader p') \<le> length (reader p)"
  unfolding readString_def
  by (auto split: prod.splits sum.splits if_splits dest!: readBytes_reader_le)

lemma reader_le_dom:
  "parseValue_parseArray_parseProperties_dom (Inl (value, p)) \<Longrightarrow>
     length (reader (snd (snd (parseValue value p)))) \<le> length (reader p)"
  "parseValue_parseArray_parseProperties_dom (Inr (Inl (i, len, arrayMarker, vs, p))) \<Longrightarrow>
     length (reader (snd (parseArray i len arrayMarker vs p))) \<le> length (reader p)"
  "parseValue_parseArray_parseProperties_dom (Inr (Inr (properties, p))) \<Longrightarrow>
     length (reader (snd (parseProperties properties p))) \<le> length (reader p)"
proof (induct rule: parseValue_parseArray_parseProperties.pinduct)
  case (1 "value" p)
  note dom = 1(1)
  note eq = parseValue.psimps [OF dom]
  let ?m = "Marker value"
  consider (num) "?m = Number" | (bool) "?m = Boolean"
    | (str) "?m = LongString \<or> ?m = XmlDocument \<or> ?m = String"
    | (obj) "?m = Object" | (null) "?m = Null \<or> ?m = Undefined"
    | (ref) "?m = Reference" | (ecma) "?m = ECMAArray" | (arr) "?m = StrictArray"
    | (date) "?m = Date" | (typed) "?m = TypedObject" | (avm) "?m = AvmPlusObject"
    | (unsup) "?m = Unsupported \<or> ?m = Recordset \<or> ?m = Movieclip"
    | (other) "?m \<noteq> Number" "?m \<noteq> Boolean" "?m \<noteq> LongString" "?m \<noteq> XmlDocument"
        "?m \<noteq> String" "?m \<noteq> Object" "?m \<noteq> Null" "?m \<noteq> Undefined" "?m \<noteq> Reference"
        "?m \<noteq> ECMAArray" "?m \<noteq> StrictArray" "?m \<noteq> Date" "?m \<noteq> TypedObject"
        "?m \<noteq> AvmPlusObject" "?m \<noteq> Unsupported" "?m \<noteq> Recordset" "?m \<noteq> Movieclip"
    by blast
  then show ?case
  proof cases
    case num
    then show ?thesis
      by (auto simp: eq split: prod.splits sum.splits dest: readDouble_reader_le)
  next
    case bool
    then show ?thesis
      by (auto simp: eq Marker_defs split: prod.splits sum.splits dest: readBytes_reader_le)
  next
    case str
    then show ?thesis
      by (auto simp: eq Marker_defs split: prod.splits sum.splits dest: readString_reader_le)
  next
    case obj
    then have c: "?m \<noteq> Number" "?m \<noteq> Boolean" "\<not> (?m = LongString \<or> ?m = XmlDocument \<or> ?m = String)"
      by (simp_all add: Marker_defs)
    from 1(2) [OF c obj] c obj show ?thesis
      by (auto simp: eq Let_def split: prod.splits sum.splits)
  next
    case null
    then show ?thesis by (auto simp: eq Marker_defs)
  next
    case ref
    then show ?thesis
      by (auto simp: eq Marker_defs Let_def split: prod.splits sum.splits dest: readBytes_reader_le)
  next
    case ecma
    then have c: "?m \<noteq> Number" "?m \<noteq> Boolean" "\<not> (?m = LongString \<or> ?m = XmlDocument \<or> ?m = String)"
      "?m \<noteq> Object" "\<not> (?m = Null \<or> ?m = Undefined)" "?m \<noteq> Reference"
      by (simp_all add: Marker_defs)
    show ?thesis
    proof (cases "readBytes 4 p")
      case (Pair r p')
      show ?thesis
      proof (cases r)
        case (Inl e)
        with Pair c ecma show ?thesis
          using readBytes_reader_le [OF Pair] by (simp add: eq)
      next
        case (Inr d)
        from 1(3) [OF c ecma Pair [symmetric] Inr] readBytes_reader_le [OF Pair]
        show ?thesis using Pair Inr c ecma
          by (auto simp: eq Let_def split: prod.splits sum.splits)
      qed
    qed
  next
    case arr
    then have c: "?m \<noteq> Number" "?m \<noteq> Boolean" "\<not> (?m = LongString \<or> ?m = XmlDocument \<or> ?m = String)"
      "?m \<noteq> Object" "\<not> (?m = Null \<or> ?m = Undefined)" "?m \<noteq> Reference" "?m \<noteq> ECMAArray"
      by (simp_all add: Marker_defs)
    show ?thesis
    proof (cases "readBytes 4 p")
      case (Pair r p')
      note le1 = readBytes_reader_le [OF Pair]
      show ?thesis
      proof (cases r)
        case (Inl e)
        with Pair c arr le1 show ?thesis by (simp add: eq)
      next
        case (Inr d)
        show ?thesis
        proof (cases "readBytes 1 p'")
          case P2: (Pair r2 p2)
          note le2 = readBytes_reader_le [OF P2]
          show ?thesis
          proof (cases r2)
            case I2: (Inl e)
            with Pair Inr P2 c arr le1 le2 show ?thesis by (simp add: eq)
          next
            case I2: (Inr d2)
            from 1(4) [OF c arr Pair [symmetric] Inr refl P2 [symmetric] I2 refl] le1 le2
            show ?thesis using Pair Inr P2 I2 c arr
              by (auto simp: eq Let_def split: prod.splits sum.splits)
          qed
        qed
      qed
    qed
  next
    case date
    then show ?thesis
      by (auto simp: eq Marker_defs Let_def split: prod.splits sum.splits dest!: readBytes_reader_le)
  next
    case typed
    then have c: "?m \<noteq> Number" "?m \<noteq> Boolean" "\<not> (?m = LongString \<or> ?m = XmlDocument \<or> ?m = String)"
      "?m \<noteq> Object" "\<not> (?m = Null \<or> ?m = Undefined)" "?m \<noteq> Reference" "?m \<noteq> ECMAArray"
      "?m \<noteq> StrictArray" "?m \<noteq> Date"
      by (simp_all add: Marker_defs)
    show ?thesis
    proof (cases "readString String p")
      case (Pair r p')
      note le1 = readString_reader_le [OF Pair]
      show ?thesis
      proof (cases r)
        case (Inl e)
        with Pair c typed le1 show ?thesis by (simp add: eq)
      next
        case (Inr b)
        obtain name n where b: "b = (name, n)" by (cases b)
        from 1(5) [OF c typed Pair [symmetric] Inr b [symmetric] refl] le1
        show ?thesis using Pair Inr b c typed
          by (auto simp: eq Let_def split: prod.splits sum.splits)
      qed
    qed
  next
    case avm
    then show ?thesis by (auto simp: eq Marker_defs)
  next
    case unsup
    then show ?thesis by (auto simp: eq Marker_defs)
  next
    case other
    then show ?thesis by (simp add: eq)
  qed
next
  case (2 i len arrayMarker "values" p)
  note eq = parseArray.psimps [OF 2(1)]
  show ?case
  proof (cases "i < len")
    case False
    then show ?thesis by (simp add: eq)
  next
    case True
    obtain e v p' where pv: "parseValue (MkValue arrayMarker [] Nil) p = (e, v, p')"
      by (cases "parseValue (MkValue arrayMarker [] Nil) p") auto
    from 2(2) [OF True] pv have le1: "length (reader p') \<le> length (reader p)" by simp
    show ?thesis
    proof (cases e)
      case (Some a)
      with True pv le1 show ?thesis by (simp add: eq)
    next
      case None
      from 2(3) [OF True pv [symmetric] None refl] le1 True pv None
      show ?thesis by (simp add: eq)
    qed
  qed
next
  case (3 properties p)
  note eq = parseProperties.psimps [OF 3(1)]
  show ?case
  proof (cases "readString String p")
    case (Pair r p')
    note le1 = readString_reader_le [OF Pair]
    show ?thesis
    proof (cases r)
      case (Inl e)
      with Pair le1 show ?thesis by (simp add: eq)
    next
      case (Inr b)
      obtain name n where b: "b = (name, n)" by (cases b)
      show ?thesis
      proof (cases "readBytes 1 p'")
        case P2: (Pair r2 p2)
        note le2 = readBytes_reader_le [OF P2]
        show ?thesis
        proof (cases r2)
          case I2: (Inl e)
          with Pair Inr b P2 le1 le2 show ?thesis by (simp add: eq)
        next
          case I2: (Inr d)
          show ?thesis
          proof (cases "n = 0")
            case True
            with Pair Inr b P2 I2 le1 le2 show ?thesis by (simp add: eq)
          next
            case False
            obtain e v p3 where pv: "parseValue (MkValue (d ! 0) name Nil) p2 = (e, v, p3)"
              by (cases "parseValue (MkValue (d ! 0) name Nil) p2") auto
            from 3(2) [OF Pair [symmetric] Inr b [symmetric] False P2 [symmetric] I2] pv
            have le3: "length (reader p3) \<le> length (reader p2)" by simp
            show ?thesis
            proof (cases e)
              case (Some a)
              with Pair Inr b P2 I2 False pv le1 le2 le3 show ?thesis by (simp add: eq)
            next
              case None
              from 3(3) [OF Pair [symmetric] Inr b [symmetric] False P2 [symmetric] I2 pv [symmetric] None refl]
                Pair Inr b P2 I2 False pv le1 le2 le3 None
              show ?thesis by (simp add: eq)
            qed
          qed
        qed
      qed
    qed
  qed
qed

lemma readBytes_1_lt: "(Inr d, p') = readBytes 1 p \<Longrightarrow> length (reader p') < length (reader p)"
  using readBytes_Inr [of 1 p d p'] by auto

lemma readBytes_4_lt: "(Inr d, p') = readBytes 4 p \<Longrightarrow> length (reader p') < length (reader p)"
  using readBytes_Inr [of 4 p d p'] by auto

lemma readString_le_sym: "(r, p') = readString m p \<Longrightarrow> length (reader p') \<le> length (reader p)"
  using readString_reader_le [of m p r p'] by simp

lemma parseValue_le_sym:
  "(e, v, p') = parseValue value p \<Longrightarrow> parseValue_parseArray_parseProperties_dom (Inl (value, p))
    \<Longrightarrow> length (reader p') \<le> length (reader p)"
  using reader_le_dom(1) [of "value" p] by (cases "parseValue value p") auto

termination parseValue
proof (relation "(\<lambda>x. case x of Inl (v, p) \<Rightarrow> length (reader p)
                           | Inr (Inl (i, n, m, vs, p)) \<Rightarrow> length (reader p)
                           | Inr (Inr (ps, p)) \<Rightarrow> length (reader p))
                   <*mlex*> measure (\<lambda>x. case x of Inl (v, p) \<Rightarrow> 1
                           | Inr (Inl (i, n, m, vs, p)) \<Rightarrow> 2 + (n - i)
                           | Inr (Inr (ps, p)) \<Rightarrow> 0)", goal_cases)
  case 1
  show ?case by (simp add: wf_mlex)
next
  case 2
  then show ?case by (simp add: mlex_prod_def)
next
  case 3
  then show ?case by (auto simp: mlex_prod_def dest!: readBytes_4_lt)
next
  case 4
  then show ?case by (auto simp: mlex_prod_def dest!: readBytes_4_lt readBytes_1_lt)
next
  case 5
  then show ?case by (auto simp: mlex_prod_def dest!: readString_le_sym)
next
  case 6
  then show ?case by (auto simp: mlex_prod_def)
next
  case 7
  then show ?case by (auto simp: mlex_prod_def dest!: parseValue_le_sym)
next
  case 8
  then show ?case by (auto simp: mlex_prod_def dest!: readString_le_sym readBytes_1_lt)
next
  case 9
  then show ?case by (auto simp: mlex_prod_def dest!: readString_le_sym readBytes_1_lt parseValue_le_sym)
qed

declare parseValue.simps [simp del] parseArray.simps [simp del] parseProperties.simps [simp del]

subsection \<open>The entry point\<close>

text \<open>
  \<^verbatim>\<open>Parse\<close> has the named results \<^verbatim>\<open>(value *Value, bytesRead int, err error)\<close>. Its
  deferred function assigns \<^verbatim>\<open>err\<close> only. After a panic the results are therefore:
  for \<^verbatim>\<open>value\<close>, \<^verbatim>\<open>nil\<close> (\<open>None\<close>) if the panic came from reading the marker, and
  otherwise the pointer assigned before \<^verbatim>\<open>parseValue\<close> was called; for
  \<^verbatim>\<open>bytesRead\<close>, its zero value, since only the \<^verbatim>\<open>return\<close> statement assigns it.
  The second component of the model's result is the parser after the call.
\<close>

definition Parse :: "Parser \<Rightarrow> (Value option \<times> int \<times> error option) \<times> Parser" where
  "Parse p =
     (case readBytes 1 p of
        (Inl e, p') \<Rightarrow> ((None, 0, Some e), p')
      | (Inr data, p') \<Rightarrow>
          (let marker = data ! 0;
               value = MkValue marker [] Nil
           in case parseValue value p' of
                (Some e, value', p'') \<Rightarrow> ((Some value', 0, Some e), p'')
              | (None, value', p'') \<Rightarrow> ((Some value', bytesRead p'', None), p'')))"

text \<open>
  The parser after \<open>k\<close> calls of \<^verbatim>\<open>Parse\<close>, whatever their outcomes.
\<close>

fun after_calls :: "nat \<Rightarrow> Parser \<Rightarrow> Parser" where
  "after_calls 0 p = p"
| "after_calls (Suc k) p = snd (Parse (after_calls k p))"

subsection \<open>Predicates used in the statements\<close>

text \<open>
  No Value of the tree carries the \<^verbatim>\<open>Reference\<close> marker.
\<close>

fun noReference :: "Value \<Rightarrow> bool" where
  "noReference (MkValue m n x) =
     (m \<noteq> Reference \<and> (case x of Values vs \<Rightarrow> (\<forall>v \<in> set vs. noReference v) | _ \<Rightarrow> True))"

text \<open>
  Every entry of the reference table is free of \<^verbatim>\<open>Reference\<close> markers.
\<close>

definition resolved :: "Parser \<Rightarrow> bool" where
  "resolved p = list_all noReference (references p)"

text \<open>
  A payload that holds no further Values.
\<close>

definition scalar :: "Value any \<Rightarrow> bool" where
  "scalar x = (case x of Values _ \<Rightarrow> False | _ \<Rightarrow> True)"

text \<open>
  \<open>advanced p p'\<close>: parser \<open>p'\<close> is \<open>p\<close> after some bytes were read. The bytes left are a
  suffix of those of \<open>p\<close>, the counter has grown by the number of bytes taken, and the
  reference table of \<open>p\<close> is an initial segment of that of \<open>p'\<close>.
\<close>

definition advanced :: "Parser \<Rightarrow> Parser \<Rightarrow> bool" where
  "advanced p p' \<longleftrightarrow>
     (let k = length (reader p) - length (reader p')
      in reader p' = drop k (reader p) \<and> bytesRead p' = bytesRead p + int k \<and>
         prefix (references p) (references p'))"

section \<open>Properties of the decoder\<close>

subsection \<open>Field assignments and the branches of \<open>parseValue\<close>\<close>

lemma set_simps [simp]:
  "Marker (set_Value v x) = Marker v" "Name (set_Value v x) = Name v" "Value (set_Value v x) = x"
  "Marker (set_Name v n) = Marker v" "Name (set_Name v n) = n" "Value (set_Name v n) = Value v"
  "Marker (set_Marker v m) = m" "Name (set_Marker v m) = Name v" "Value (set_Marker v m) = Value v"
  by (simp_all add: set_Value_def set_Name_def set_Marker_def)

lemma parseValue_Object:
  "Marker value = Object \<Longrightarrow> parseValue value p =
        (case parseProperties [] p of
           (Inl e, p') \<Rightarrow> (Some e, value, p')
         | (Inr properties, p') \<Rightarrow>
             (let value' = set_Value value (Values properties)
              in (None, value', p'\<lparr>references := references p' @ [value']\<rparr>)))"
  by (simp add: parseValue.simps Marker_defs)

lemma parseValue_ECMAArray:
  "Marker value = ECMAArray \<Longrightarrow> parseValue value p =
        (case readBytes 4 p of
           (Inl e, p') \<Rightarrow> (Some e, value, p')
         | (Inr _, p') \<Rightarrow>
             (case parseProperties [] p' of
                (Inl e, p'') \<Rightarrow> (Some e, value, p'')
              | (Inr properties, p'') \<Rightarrow>
                  (let value' = set_Value value (Values properties)
                   in (None, value', p''\<lparr>references := references p'' @ [value']\<rparr>))))"
  by (simp add: parseValue.simps Marker_defs)

lemma parseValue_StrictArray:
  "Marker value = StrictArray \<Longrightarrow> parseValue value p =
        (case readBytes 4 p of
           (Inl e, p') \<Rightarrow> (Some e, value, p')
         | (Inr data, p') \<Rightarrow>
             (let len = unat (Uint32 data)
              in case readBytes 1 p' of
                   (Inl e, p'') \<Rightarrow> (Some e, value, p'')
                 | (Inr data', p'') \<Rightarrow>
                     (let arrayMarker = data' ! 0
                      in case parseArray 0 len arrayMarker [] p'' of
                           (Inl e, p''') \<Rightarrow> (Some e, value, p''')
                         | (Inr values, p''') \<Rightarrow> (None, set_Value value (Values values), p'''))))"
  by (simp add: parseValue.simps Marker_defs)

lemma parseValue_TypedObject:
  "Marker value = TypedObject \<Longrightarrow> parseValue value p =
        (case readString String p of
           (Inl e, p') \<Rightarrow> (Some e, value, p')
         | (Inr (name, _), p') \<Rightarrow>
             (let value' = set_Name value name
              in case parseProperties [] p' of
                   (Inl e, p'') \<Rightarrow> (Some e, value', p'')
                 | (Inr properties, p'') \<Rightarrow>
                     (let value'' = set_Value value' (Values properties)
                      in (None, value'', p''\<lparr>references := references p'' @ [value'']\<rparr>))))"
  by (simp add: parseValue.simps Marker_defs)

lemma parseValue_Reference:
  "Marker value = Reference \<Longrightarrow> parseValue value p =
        (case readBytes 2 p of
           (Inl e, p') \<Rightarrow> (Some e, value, p')
         | (Inr data, p') \<Rightarrow>
             (let index = Uint16 data
              in if uint index > int (length (references p')) - 1 then (Some InvalidReference, value, p')
                 else (let ref = references p' ! unat index
                       in (None, set_Marker (set_Value value (Value ref)) (Marker ref), p'))))"
  by (simp add: parseValue.simps Marker_defs)

lemma parseValue_leaf:
  assumes "Marker v \<noteq> Object" "Marker v \<noteq> ECMAArray" "Marker v \<noteq> StrictArray" "Marker v \<noteq> TypedObject"
  shows "parseValue v p =
     (if Marker v = Number then
        (case readDouble p of
           (Inl e, p') \<Rightarrow> (Some e, v, p')
         | (Inr d, p') \<Rightarrow> (None, set_Value v (Float64 d), p'))
      else if Marker v = Boolean then
        (case readBytes 1 p of
           (Inl e, p') \<Rightarrow> (Some e, v, p')
         | (Inr data, p') \<Rightarrow> (None, set_Value v (Bool (data ! 0 \<noteq> 0)), p'))
      else if Marker v = LongString \<or> Marker v = XmlDocument \<or> Marker v = String then
        (case readString (Marker v) p of
           (Inl e, p') \<Rightarrow> (Some e, v, p')
         | (Inr (str, _), p') \<Rightarrow> (None, set_Value v (Str str), p'))
      else if Marker v = Null \<or> Marker v = Undefined then
        (None, set_Value v Nil, p)
      else if Marker v = Reference then
        (case readBytes 2 p of
           (Inl e, p') \<Rightarrow> (Some e, v, p')
         | (Inr data, p') \<Rightarrow>
             (let index = Uint16 data
              in if uint index > int (length (references p')) - 1 then (Some InvalidReference, v, p')
                 else (let ref = references p' ! unat index
                       in (None, set_Marker (set_Value v (Value ref)) (Marker ref), p'))))
      else if Marker v = Date then
        (case readBytes 2 p of
           (Inl e, p') \<Rightarrow> (Some e, v, p')
         | (Inr _, p') \<Rightarrow>
             (case readBytes 8 p' of
                (Inl e, p'') \<Rightarrow> (Some e, v, p'')
              | (Inr data, p'') \<Rightarrow> (None, set_Value v (Float64 (Uint64 data)), p'')))
      else if Marker v = AvmPlusObject then
        (Some UnsupportedVersion, v, p)
      else if Marker v = Unsupported \<or> Marker v = Recordset \<or> Marker v = Movieclip then
        (Some (UnsupportedType (Marker v)), v, p)
      else (None, v, p))"
  using assms by (simp add: parseValue.simps)

text \<open>
  Induction over the calls of the decoder, with the four branches of \<open>parseValue\<close> that
  call on, and one case for all the others.
\<close>

lemma decode_induct [case_names leaf obj ecma arr typed exit loop props]:
  fixes P :: "Value \<Rightarrow> Parser \<Rightarrow> bool"
    and Q :: "nat \<Rightarrow> nat \<Rightarrow> Marker \<Rightarrow> Value list \<Rightarrow> Parser \<Rightarrow> bool"
    and R :: "Value list \<Rightarrow> Parser \<Rightarrow> bool"
  assumes leaf: "\<And>v p. Marker v \<noteq> Object \<Longrightarrow> Marker v \<noteq> ECMAArray \<Longrightarrow>
              Marker v \<noteq> StrictArray \<Longrightarrow> Marker v \<noteq> TypedObject \<Longrightarrow> P v p"
    and obj: "\<And>v p. Marker v = Object \<Longrightarrow> R [] p \<Longrightarrow> P v p"
    and ecma: "\<And>v p. Marker v = ECMAArray \<Longrightarrow>
              (\<And>d p'. readBytes 4 p = (Inr d, p') \<Longrightarrow> R [] p') \<Longrightarrow> P v p"
    and arr: "\<And>v p. Marker v = StrictArray \<Longrightarrow>
              (\<And>d p' d' p''. readBytes 4 p = (Inr d, p') \<Longrightarrow> readBytes 1 p' = (Inr d', p'') \<Longrightarrow>
                 Q 0 (unat (Uint32 d)) (d' ! 0) [] p'') \<Longrightarrow> P v p"
    and typed: "\<And>v p. Marker v = TypedObject \<Longrightarrow>
              (\<And>s n p'. readString String p = (Inr (s, n), p') \<Longrightarrow> R [] p') \<Longrightarrow> P v p"
    and exit: "\<And>i len m vs p. \<not> i < len \<Longrightarrow> Q i len m vs p"
    and loop: "\<And>i len m vs p. i < len \<Longrightarrow> P (MkValue m [] Nil) p \<Longrightarrow>
              (\<And>v p'. parseValue (MkValue m [] Nil) p = (None, v, p') \<Longrightarrow>
                 Q (i + 1) len m (vs @ [v]) p') \<Longrightarrow> Q i len m vs p"
    and props: "\<And>ps p.
              (\<And>s n p' d p''. readString String p = (Inr (s, n), p') \<Longrightarrow> n \<noteq> 0 \<Longrightarrow>
                 readBytes 1 p' = (Inr d, p'') \<Longrightarrow> P (MkValue (d ! 0) s Nil) p'') \<Longrightarrow>
              (\<And>s n p' d p'' v p'''. readString String p = (Inr (s, n), p') \<Longrightarrow> n \<noteq> 0 \<Longrightarrow>
                 readBytes 1 p' = (Inr d, p'') \<Longrightarrow>
                 parseValue (MkValue (d ! 0) s Nil) p'' = (None, v, p''') \<Longrightarrow> R (ps @ [v]) p''') \<Longrightarrow>
              R ps p"
  shows "P v0 p0" and "Q i0 len0 m0 vs0 q0" and "R ps0 r0"
proof (induct v0 p0 and i0 len0 m0 vs0 q0 and ps0 r0 rule: parseValue_parseArray_parseProperties.induct)
  case (1 v p)
  let ?m = "Marker v"
  consider (o) "?m = Object" | (e) "?m = ECMAArray" | (a) "?m = StrictArray" | (t) "?m = TypedObject"
    | (l) "?m \<noteq> Object" "?m \<noteq> ECMAArray" "?m \<noteq> StrictArray" "?m \<noteq> TypedObject"
    by blast
  then show ?case
  proof cases
    case o
    then show ?thesis using 1(1) by (intro obj) (simp_all add: Marker_defs)
  next
    case e
    show ?thesis
    proof (rule ecma [OF e])
      fix d p' assume "readBytes 4 p = (Inr d, p')"
      with e show "R [] p'" by (intro 1(2) [of "Inr d" p' d]) (simp_all add: Marker_defs)
    qed
  next
    case a
    show ?thesis
    proof (rule arr [OF a])
      fix d p' d' p'' assume "readBytes 4 p = (Inr d, p')" "readBytes 1 p' = (Inr d', p'')"
      with a show "Q 0 (unat (Uint32 d)) (d' ! 0) [] p''"
        by (intro 1(3) [of "Inr d" p' d _ "Inr d'" p'' d']) (simp_all add: Marker_defs)
    qed
  next
    case t
    show ?thesis
    proof (rule typed [OF t])
      fix s n p' assume "readString String p = (Inr (s, n), p')"
      with t show "R [] p'"
        by (intro 1(4) [of "Inr (s, n)" p' "(s, n)" s n]) (simp_all add: Marker_defs)
    qed
  next
    case l
    then show ?thesis by (rule leaf)
  qed
next
  case (2 i len m vs p)
  show ?case
  proof (cases "i < len")
    case False
    then show ?thesis by (rule exit)
  next
    case True
    show ?thesis
    proof (rule loop [OF True 2(1) [OF True]])
      fix v p' assume "parseValue (MkValue m [] Nil) p = (None, v, p')"
      with True show "Q (i + 1) len m (vs @ [v]) p'"
        by (intro 2(2) [of None "(v, p')" v p']) simp_all
    qed
  qed
next
  case (3 ps p)
  show ?case
  proof (rule props)
    fix s n p' d p''
    assume "readString String p = (Inr (s, n), p')" "n \<noteq> 0" "readBytes 1 p' = (Inr d, p'')"
    then show "P (MkValue (d ! 0) s Nil) p''"
      by (intro 3(1) [of "Inr (s, n)" p' "(s, n)" s n "Inr d" p'' d]) simp_all
  next
    fix s n p' d p'' v p'''
    assume "readString String p = (Inr (s, n), p')" "n \<noteq> 0" "readBytes 1 p' = (Inr d, p'')"
      "parseValue (MkValue (d ! 0) s Nil) p'' = (None, v, p''')"
    then show "R (ps @ [v]) p'''"
      by (intro 3(2) [of "Inr (s, n)" p' "(s, n)" s n "Inr d" p'' d None "(v, p''')" v p''']) simp_all
  qed
qed

subsection \<open>Reading only advances the parser\<close>

lemma advanced_iff:
  "advanced p p' \<longleftrightarrow>
     (\<exists>k. k \<le> length (reader p) \<and> reader p' = drop k (reader p) \<and> bytesRead p' = bytesRead p + int k) \<and>
     prefix (references p) (references p')"
proof -
  have "k \<le> length xs \<Longrightarrow> length xs - length (drop k xs) = k" for k and xs :: "byte list"
    by simp
  then show ?thesis
    unfolding advanced_def Let_def
    by (metis diff_le_self)
qed

lemma advanced_refl: "advanced p p"
  by (simp add: advanced_def)

lemma advanced_trans: "advanced p p' \<Longrightarrow> advanced p' p'' \<Longrightarrow> advanced p p''"
proof -
  assume a: "advanced p p'" and b: "advanced p' p''"
  from a obtain k where k: "k \<le> length (reader p)" "reader p' = drop k (reader p)"
    "bytesRead p' = bytesRead p + int k" and pa: "prefix (references p) (references p')"
    unfolding advanced_iff by blast
  from b obtain j where j: "j \<le> length (reader p')" "reader p'' = drop j (reader p')"
    "bytesRead p'' = bytesRead p' + int j" and pb: "prefix (references p') (references p'')"
    unfolding advanced_iff by blast
  have "k + j \<le> length (reader p)" using k j by simp
  moreover have "reader p'' = drop (k + j) (reader p)" using k j by (simp add: add.commute)
  moreover have "bytesRead p'' = bytesRead p + int (k + j)" using k j by simp
  ultimately show ?thesis
    unfolding advanced_iff using pa pb prefix_order.order_trans by blast
qed

lemma advanced_register: "advanced p p' \<Longrightarrow> advanced p (p'\<lparr>references := references p' @ [v]\<rparr>)"
  by (auto simp: advanced_def Let_def intro: prefix_order.order_trans)

lemma readBytes_advanced:
  "readBytes n p = (r, p') \<Longrightarrow> advanced p p' \<and> references p' = references p"
  by (auto simp: readBytes_def advanced_def Let_def min_def split: if_splits)

lemma readDouble_advanced:
  "readDouble p = (r, p') \<Longrightarrow> advanced p p' \<and> references p' = references p"
  by (auto simp: readDouble_def split: prod.splits sum.splits dest!: readBytes_advanced)

lemma readString_advanced:
  "readString m p = (r, p') \<Longrightarrow> advanced p p' \<and> references p' = references p"
  unfolding readString_def
  by (auto split: prod.splits sum.splits if_splits dest!: readBytes_advanced
      intro: advanced_refl advanced_trans)

lemma parseValue_leaf_advanced:
  assumes "Marker v \<noteq> Object" "Marker v \<noteq> ECMAArray" "Marker v \<noteq> StrictArray" "Marker v \<noteq> TypedObject"
    and "parseValue v p = (e, v', p')"
  shows "advanced p p' \<and> references p' = references p"
  using assms(5) unfolding parseValue_leaf [OF assms(1-4)]
  by (auto simp: Let_def split: if_splits prod.splits sum.splits
      dest!: readBytes_advanced readDouble_advanced readString_advanced
      intro: advanced_refl advanced_trans)

lemma decode_advanced:
  "advanced p0 (snd (snd (parseValue v0 p0)))"
  "advanced q0 (snd (parseArray i0 len0 m0 vs0 q0))"
  "advanced r0 (snd (parseProperties ps0 r0))"
proof (induct v0 p0 and i0 len0 m0 vs0 q0 and ps0 r0 rule: decode_induct)
  case (leaf v p)
  then show ?case
    using parseValue_leaf_advanced [of v p] by (cases "parseValue v p") auto
next
  case (obj v p)
  then show ?case
    by (cases "parseProperties [] p")
       (auto simp: parseValue_Object Let_def split: sum.splits intro: advanced_register)
next
  case (ecma v p)
  show ?case
  proof (cases "readBytes 4 p")
    case (Pair r p')
    note a1 = readBytes_advanced [OF Pair, THEN conjunct1]
    show ?thesis
    proof (cases r)
      case (Inl e)
      with Pair a1 ecma(1) show ?thesis by (simp add: parseValue_ECMAArray)
    next
      case (Inr d)
      from ecma(2) [OF Pair [unfolded Inr]] a1
      have "advanced p (snd (parseProperties [] p'))" by (rule advanced_trans [rotated])
      with Pair Inr ecma(1) show ?thesis
        by (cases "parseProperties [] p'")
           (auto simp: parseValue_ECMAArray Let_def split: sum.splits intro: advanced_register)
    qed
  qed
next
  case (arr v p)
  show ?case
  proof (cases "readBytes 4 p")
    case (Pair r p')
    note a1 = readBytes_advanced [OF Pair, THEN conjunct1]
    show ?thesis
    proof (cases r)
      case (Inl e)
      with Pair a1 arr(1) show ?thesis by (simp add: parseValue_StrictArray)
    next
      case (Inr d)
      show ?thesis
      proof (cases "readBytes 1 p'")
        case P2: (Pair r2 p2)
        note a2 = advanced_trans [OF a1 readBytes_advanced [OF P2, THEN conjunct1]]
        show ?thesis
        proof (cases r2)
          case I2: (Inl e)
          with Pair Inr P2 a2 arr(1) show ?thesis by (simp add: parseValue_StrictArray)
        next
          case I2: (Inr d2)
          from arr(2) [OF Pair [unfolded Inr] P2 [unfolded I2]] a2
          have "advanced p (snd (parseArray 0 (unat (Uint32 d)) (d2 ! 0) [] p2))"
            by (rule advanced_trans [rotated])
          with Pair Inr P2 I2 arr(1) show ?thesis
            by (cases "parseArray 0 (unat (Uint32 d)) (d2 ! 0) [] p2")
               (auto simp: parseValue_StrictArray Let_def split: sum.splits)
        qed
      qed
    qed
  qed
next
  case (typed v p)
  show ?case
  proof (cases "readString String p")
    case (Pair r p')
    note a1 = readString_advanced [OF Pair, THEN conjunct1]
    show ?thesis
    proof (cases r)
      case (Inl e)
      with Pair a1 typed(1) show ?thesis by (simp add: parseValue_TypedObject)
    next
      case (Inr b)
      obtain s n where b: "b = (s, n)" by (cases b)
      from typed(2) [OF Pair [unfolded Inr b]] a1
      have "advanced p (snd (parseProperties [] p'))" by (rule advanced_trans [rotated])
      with Pair Inr b typed(1) show ?thesis
        by (cases "parseProperties [] p'")
           (auto simp: parseValue_TypedObject Let_def split: sum.splits intro: advanced_register)
    qed
  qed
next
  case (exit i len m vs p)
  then show ?case by (simp add: parseArray.simps advanced_refl)
next
  case (loop i len m vs p)
  obtain e v p' where pv: "parseValue (MkValue m [] Nil) p = (e, v, p')"
    by (cases "parseValue (MkValue m [] Nil) p") auto
  with loop(2) have a1: "advanced p p'" by simp
  show ?case
  proof (cases e)
    case (Some a)
    with pv a1 loop(1) show ?thesis by (simp add: parseArray.simps)
  next
    case None
    from loop(3) [OF pv [unfolded None]] a1
    have "advanced p (snd (parseArray (i + 1) len m (vs @ [v]) p'))" by (rule advanced_trans [rotated])
    with pv None loop(1) show ?thesis by (simp add: parseArray.simps)
  qed
next
  case (props ps p)
  show ?case
  proof (cases "readString String p")
    case (Pair r p')
    note a1 = readString_advanced [OF Pair, THEN conjunct1]
    show ?thesis
    proof (cases r)
      case (Inl e)
      with Pair a1 show ?thesis by (simp add: parseProperties.simps)
    next
      case (Inr b)
      obtain s n where b: "b = (s, n)" by (cases b)
      show ?thesis
      proof (cases "readBytes 1 p'")
        case P2: (Pair r2 p2)
        note a2 = advanced_trans [OF a1 readBytes_advanced [OF P2, THEN conjunct1]]
        show ?thesis
        proof (cases r2)
          case I2: (Inl e)
          with Pair Inr b P2 a2 show ?thesis by (simp add: parseProperties.simps)
        next
          case I2: (Inr d)
          show ?thesis
          proof (cases "n = 0")
            case True
            with Pair Inr b P2 I2 a2 show ?thesis by (simp add: parseProperties.simps)
          next
            case False
            obtain e v p3 where pv: "parseValue (MkValue (d ! 0) s Nil) p2 = (e, v, p3)"
              by (cases "parseValue (MkValue (d ! 0) s Nil) p2") auto
            from props(1) [OF Pair [unfolded Inr b] False P2 [unfolded I2]] pv a2
            have a3: "advanced p p3" by (auto intro: advanced_trans)
            show ?thesis
            proof (cases e)
              case (Some a)
              with Pair Inr b P2 I2 False pv a3 show ?thesis by (simp add: parseProperties.simps)
            next
              case None
              from props(2) [OF Pair [unfolded Inr b] False P2 [unfolded I2] pv [unfolded None]] a3
              have "advanced p (snd (parseProperties (ps @ [v]) p3))" by (rule advanced_trans [rotated])
              with Pair Inr b P2 I2 False pv None show ?thesis by (simp add: parseProperties.simps)
            qed
          qed
        qed
      qed
    qed
  qed
qed

lemma Parse_advanced: "advanced p (snd (Parse p))"
proof (cases "readBytes 1 p")
  case (Pair r p')
  note a1 = readBytes_advanced [OF Pair, THEN conjunct1]
  show ?thesis
  proof (cases r)
    case (Inl e)
    with Pair a1 show ?thesis by (simp add: Parse_def)
  next
    case (Inr d)
    from decode_advanced(1) [of p' "MkValue (d ! 0) [] Nil"] a1
    have "advanced p (snd (snd (parseValue (MkValue (d ! 0) [] Nil) p')))"
      by (rule advanced_trans [rotated])
    with Pair Inr show ?thesis
      by (cases "parseValue (MkValue (d ! 0) [] Nil) p'")
         (auto simp: Parse_def Let_def split: option.splits)
  qed
qed

lemma after_calls_advanced: "advanced p (after_calls k p)"
proof (induction k)
  case 0
  show ?case by (simp add: advanced_refl)
next
  case (Suc k)
  from Suc Parse_advanced [of "after_calls k p"] show ?case
    by (simp add: advanced_trans)
qed

lemma Parse_failure_count: "Parse p = ((v, n, Some e), p') \<Longrightarrow> n = 0"
  by (auto simp: Parse_def Let_def split: prod.splits sum.splits option.splits)

lemma Parse_success_count: "Parse p = ((v, n, None), p') \<Longrightarrow> n = bytesRead p'"
  by (auto simp: Parse_def Let_def split: prod.splits sum.splits option.splits)

lemma readBytes_1: "reader p = b # rest \<Longrightarrow>
    readBytes 1 p = (Inr [b], p\<lparr>reader := rest, bytesRead := bytesRead p + 1\<rparr>)"
  by (simp add: readBytes_def Let_def)

lemma readBytes_2: "reader p = hi # lo # rest \<Longrightarrow>
    readBytes 2 p = (Inr [hi, lo], p\<lparr>reader := rest, bytesRead := bytesRead p + 2\<rparr>)"
  by (simp add: readBytes_def Let_def)

lemma readBytes_4: "readBytes 4 p = (Inr d, p') \<Longrightarrow>
    \<exists>b0 b1 b2 b3. d = [b0, b1, b2, b3] \<and> reader p = b0 # b1 # b2 # b3 # reader p'"
proof -
  assume a: "readBytes 4 p = (Inr d, p')"
  from readBytes_Inr [OF a] have l: "4 \<le> length (reader p)" and d: "d = take 4 (reader p)"
    and r: "reader p' = drop 4 (reader p)" by simp_all
  from l obtain b0 b1 b2 b3 rest where "reader p = b0 # b1 # b2 # b3 # rest"
    by (auto simp: Suc_le_length_iff numeral_eq_Suc)
  with d r show ?thesis by simp
qed

lemma readBytes_1_Inr: "readBytes 1 p = (Inr d, p') \<Longrightarrow>
    \<exists>b. d = [b] \<and> reader p = b # reader p' \<and> references p' = references p"
proof -
  assume a: "readBytes 1 p = (Inr d, p')"
  from readBytes_Inr [OF a] have l: "1 \<le> length (reader p)" and d: "d = take 1 (reader p)"
    and r: "reader p' = drop 1 (reader p)" and "references p' = references p" by simp_all
  then show ?thesis by (cases "reader p") simp_all
qed

lemma index_check:
  "(int (length xs) - 1 < uint (w :: 16 word)) = (length xs \<le> unat w)"
proof -
  have "uint w = int (unat w)" by simp
  then show ?thesis by linarith
qed

subsection \<open>What a call leaves in the Value it was given\<close>

lemma parseValue_shape:
  assumes "parseValue v p = (e, v', p')"
  shows "(Marker v \<noteq> Reference \<longrightarrow> Marker v' = Marker v) \<and>
         (Marker v \<noteq> TypedObject \<longrightarrow> Name v' = Name v) \<and>
         (e \<noteq> None \<longrightarrow> Marker v' = Marker v \<and> Value v' = Value v)"
proof -
  let ?m = "Marker v"
  consider (o) "?m = Object" | (e) "?m = ECMAArray" | (a) "?m = StrictArray" | (t) "?m = TypedObject"
    | (l) "?m \<noteq> Object" "?m \<noteq> ECMAArray" "?m \<noteq> StrictArray" "?m \<noteq> TypedObject"
    by blast
  then show ?thesis
  proof cases
    case o
    with assms show ?thesis
      by (auto simp: parseValue_Object Let_def Marker_defs split: prod.splits sum.splits)
  next
    case e
    with assms show ?thesis
      by (auto simp: parseValue_ECMAArray Let_def Marker_defs split: prod.splits sum.splits)
  next
    case a
    with assms show ?thesis
      by (auto simp: parseValue_StrictArray Let_def Marker_defs split: prod.splits sum.splits)
  next
    case t
    with assms show ?thesis
      by (auto simp: parseValue_TypedObject Let_def Marker_defs split: prod.splits sum.splits)
  next
    case l
    show ?thesis
      using assms unfolding parseValue_leaf [OF l]
      by (auto simp: Let_def split: if_splits prod.splits sum.splits)
  qed
qed

lemma parseValue_Reference_success:
  assumes "Marker v = Reference" and "parseValue v p = (None, v', p')"
  shows "references p' = references p \<and>
         (\<exists>r \<in> set (references p). Marker v' = Marker r \<and> Value v' = Value r)"
proof (cases "readBytes 2 p")
  case (Pair r p1)
  note refs = readBytes_advanced [OF Pair, THEN conjunct2]
  show ?thesis
  proof (cases r)
    case (Inl e)
    with Pair assms show ?thesis by (simp add: parseValue_Reference)
  next
    case (Inr d)
    with Pair assms refs show ?thesis
      by (auto simp: parseValue_Reference Let_def index_check split: if_splits)
  qed
qed

lemma Parse_Reference:
  assumes "reader p = Reference # hi # lo # rest"
    and "length (references p) \<le> unat (Uint16 [hi, lo])"
  shows "Parse p = ((Some (MkValue Reference [] Nil), 0, Some InvalidReference),
                    p\<lparr>reader := rest, bytesRead := bytesRead p + 3\<rparr>)"
proof -
  let ?p1 = "p\<lparr>reader := hi # lo # rest, bytesRead := bytesRead p + 1\<rparr>"
  have r1: "readBytes 1 p = (Inr [Reference], ?p1)"
    using assms(1) by (simp add: readBytes_1)
  have "parseValue (MkValue Reference [] Nil) ?p1 =
      (Some InvalidReference, MkValue Reference [] Nil, ?p1\<lparr>reader := rest, bytesRead := bytesRead ?p1 + 2\<rparr>)"
    using assms(2) by (simp add: parseValue_Reference readBytes_2 Let_def index_check)
  with r1 show ?thesis by (simp add: Parse_def Let_def)
qed

subsection \<open>Decoded trees hold no \<open>Reference\<close> marker\<close>

lemma noReference_copy:
  "noReference r \<Longrightarrow> Marker v = Marker r \<Longrightarrow> Value v = Value r \<Longrightarrow> noReference v"
  by (cases v; cases r) simp

lemma noReference_Values:
  "Marker v \<noteq> Reference \<Longrightarrow> Value v = Values vs \<Longrightarrow> list_all noReference vs \<Longrightarrow> noReference v"
  by (cases v) (simp add: list_all_iff)

lemma resolved_register:
  "resolved p \<Longrightarrow> noReference v \<Longrightarrow> resolved (p\<lparr>references := references p @ [v]\<rparr>)"
  by (simp add: resolved_def)

lemma readBytes_resolved: "readBytes n p = (r, p') \<Longrightarrow> resolved p' = resolved p"
  by (auto simp: resolved_def dest!: readBytes_advanced)

lemma readString_resolved: "readString m p = (r, p') \<Longrightarrow> resolved p' = resolved p"
  by (auto simp: resolved_def dest!: readString_advanced)

lemma scalar_simps [simp]:
  "scalar Nil" "scalar (Float64 d)" "scalar (Bool b)" "scalar (Str s)" "\<not> scalar (Values vs)"
  by (simp_all add: scalar_def)

lemma parseValue_leaf_scalar:
  assumes l: "Marker v \<noteq> Object" "Marker v \<noteq> ECMAArray" "Marker v \<noteq> StrictArray" "Marker v \<noteq> TypedObject"
    and pv: "parseValue v p = (e, v', p')" and r: "Marker v \<noteq> Reference" and s: "scalar (Value v)"
  shows "scalar (Value v')"
  using pv r s unfolding parseValue_leaf [OF l]
  by (auto simp: Let_def split: if_splits prod.splits sum.splits)

lemma scalar_noReference: "Marker v \<noteq> Reference \<Longrightarrow> scalar (Value v) \<Longrightarrow> noReference v"
  by (cases v) (auto simp: scalar_def split: any.splits)

lemma parseValue_leaf_resolved:
  assumes l: "Marker v \<noteq> Object" "Marker v \<noteq> ECMAArray" "Marker v \<noteq> StrictArray" "Marker v \<noteq> TypedObject"
    and pv: "parseValue v p = (e, v', p')" and ok: "resolved p" and nil: "Value v = Nil"
  shows "resolved p' \<and> (e = None \<longrightarrow> noReference v')"
proof -
  from parseValue_leaf_advanced [OF l pv] ok have ok': "resolved p'" by (simp add: resolved_def)
  have "noReference v'" if e: "e = None"
  proof (cases "Marker v = Reference")
    case True
    from parseValue_Reference_success [OF True pv [unfolded e]]
    obtain r where r: "r \<in> set (references p)" "Marker v' = Marker r" "Value v' = Value r"
      by blast
    from r(1) ok have "noReference r" by (simp add: resolved_def list_all_iff)
    then show ?thesis using r(2,3) by (rule noReference_copy)
  next
    case False
    from parseValue_shape [OF pv] False have m: "Marker v' \<noteq> Reference" by simp
    from parseValue_leaf_scalar [OF l pv False] nil have "scalar (Value v')" by simp
    with m show ?thesis by (rule scalar_noReference)
  qed
  with ok' show ?thesis by simp
qed

lemma decode_resolved:
  "resolved p0 \<Longrightarrow> Value v0 = Nil \<Longrightarrow>
     resolved (snd (snd (parseValue v0 p0))) \<and>
     (fst (parseValue v0 p0) = None \<longrightarrow> noReference (fst (snd (parseValue v0 p0))))"
  "resolved q0 \<Longrightarrow> list_all noReference vs0 \<Longrightarrow>
     resolved (snd (parseArray i0 len0 m0 vs0 q0)) \<and>
     (\<forall>vs'. fst (parseArray i0 len0 m0 vs0 q0) = Inr vs' \<longrightarrow> list_all noReference vs')"
  "resolved r0 \<Longrightarrow> list_all noReference ps0 \<Longrightarrow>
     resolved (snd (parseProperties ps0 r0)) \<and>
     (\<forall>ps'. fst (parseProperties ps0 r0) = Inr ps' \<longrightarrow> list_all noReference ps')"
proof (induct v0 p0 and i0 len0 m0 vs0 q0 and ps0 r0 rule: decode_induct)
  case (leaf v p)
  then show ?case
    using parseValue_leaf_resolved [of v p] by (cases "parseValue v p") auto
next
  case (obj v p)
  obtain r p' where pp: "parseProperties [] p = (r, p')" by (cases "parseProperties [] p")
  from obj(2) [OF obj(3)] pp
  have ih: "resolved p'" "\<And>ps. r = Inr ps \<Longrightarrow> list_all noReference ps" by simp_all
  show ?case
  proof (cases r)
    case (Inl e)
    with pp ih obj(1) show ?thesis by (simp add: parseValue_Object)
  next
    case (Inr ps)
    from obj(1) have "noReference (set_Value v (Values ps))"
      by (intro noReference_Values [OF _ _ ih(2) [OF Inr]]) (simp_all add: Marker_defs)
    with pp Inr ih(1) obj(1) show ?thesis
      by (simp add: parseValue_Object Let_def resolved_register)
  qed
next
  case (ecma v p)
  show ?case
  proof (cases "readBytes 4 p")
    case (Pair r1 p1)
    from readBytes_resolved [OF Pair] ecma(3) have ok1: "resolved p1" by simp
    show ?thesis
    proof (cases r1)
      case (Inl e)
      with Pair ok1 ecma(1) show ?thesis by (simp add: parseValue_ECMAArray)
    next
      case I1: (Inr d)
      obtain r p' where pp: "parseProperties [] p1 = (r, p')" by (cases "parseProperties [] p1")
      from ecma(2) [OF Pair [unfolded I1] ok1] pp
      have ih: "resolved p'" "\<And>ps. r = Inr ps \<Longrightarrow> list_all noReference ps" by simp_all
      show ?thesis
      proof (cases r)
        case (Inl e)
        with Pair I1 pp ih ecma(1) show ?thesis by (simp add: parseValue_ECMAArray)
      next
        case (Inr ps)
        from ecma(1) have "noReference (set_Value v (Values ps))"
          by (intro noReference_Values [OF _ _ ih(2) [OF Inr]]) (simp_all add: Marker_defs)
        with Pair I1 pp Inr ih(1) ecma(1) show ?thesis
          by (simp add: parseValue_ECMAArray Let_def resolved_register)
      qed
    qed
  qed
next
  case (arr v p)
  show ?case
  proof (cases "readBytes 4 p")
    case (Pair r1 p1)
    from readBytes_resolved [OF Pair] arr(3) have ok1: "resolved p1" by simp
    show ?thesis
    proof (cases r1)
      case (Inl e)
      with Pair ok1 arr(1) show ?thesis by (simp add: parseValue_StrictArray)
    next
      case I1: (Inr d)
      show ?thesis
      proof (cases "readBytes 1 p1")
        case P2: (Pair r2 p2)
        from readBytes_resolved [OF P2] ok1 have ok2: "resolved p2" by simp
        show ?thesis
        proof (cases r2)
          case (Inl e)
          with Pair I1 P2 ok2 arr(1) show ?thesis by (simp add: parseValue_StrictArray)
        next
          case I2: (Inr d2)
          obtain r p' where pa: "parseArray 0 (unat (Uint32 d)) (d2 ! 0) [] p2 = (r, p')"
            by (cases "parseArray 0 (unat (Uint32 d)) (d2 ! 0) [] p2")
          from arr(2) [OF Pair [unfolded I1] P2 [unfolded I2] ok2] pa
          have ih: "resolved p'" "\<And>vs. r = Inr vs \<Longrightarrow> list_all noReference vs" by simp_all
          show ?thesis
          proof (cases r)
            case (Inl e)
            with Pair I1 P2 I2 pa ih arr(1) show ?thesis by (simp add: parseValue_StrictArray)
          next
            case (Inr vs)
            from arr(1) have "noReference (set_Value v (Values vs))"
              by (intro noReference_Values [OF _ _ ih(2) [OF Inr]]) (simp_all add: Marker_defs)
            with Pair I1 P2 I2 pa Inr ih(1) arr(1) show ?thesis
              by (simp add: parseValue_StrictArray Let_def)
          qed
        qed
      qed
    qed
  qed
next
  case (typed v p)
  show ?case
  proof (cases "readString String p")
    case (Pair r1 p1)
    from readString_resolved [OF Pair] typed(3) have ok1: "resolved p1" by simp
    show ?thesis
    proof (cases r1)
      case (Inl e)
      with Pair ok1 typed(1) show ?thesis by (simp add: parseValue_TypedObject)
    next
      case I1: (Inr b)
      obtain s n where b: "b = (s, n)" by (cases b)
      obtain r p' where pp: "parseProperties [] p1 = (r, p')" by (cases "parseProperties [] p1")
      from typed(2) [OF Pair [unfolded I1 b] ok1] pp
      have ih: "resolved p'" "\<And>ps. r = Inr ps \<Longrightarrow> list_all noReference ps" by simp_all
      show ?thesis
      proof (cases r)
        case (Inl e)
        with Pair I1 b pp ih typed(1) show ?thesis by (simp add: parseValue_TypedObject)
      next
        case (Inr ps)
        from typed(1) have "noReference (set_Value (set_Name v s) (Values ps))"
          by (intro noReference_Values [OF _ _ ih(2) [OF Inr]]) (simp_all add: Marker_defs)
        with Pair I1 b pp Inr ih(1) typed(1) show ?thesis
          by (simp add: parseValue_TypedObject Let_def resolved_register)
      qed
    qed
  qed
next
  case (exit i len m vs p)
  then show ?case by (simp add: parseArray.simps)
next
  case (loop i len m vs p)
  obtain e v p' where pv: "parseValue (MkValue m [] Nil) p = (e, v, p')"
    by (cases "parseValue (MkValue m [] Nil) p") auto
  from loop(2) [OF loop(4)] pv have ih1: "resolved p'" "e = None \<Longrightarrow> noReference v" by simp_all
  show ?case
  proof (cases e)
    case (Some a)
    with pv ih1 loop(1) show ?thesis by (simp add: parseArray.simps)
  next
    case None
    from loop(5) ih1(2) [OF None] have "list_all noReference (vs @ [v])" by simp
    from loop(3) [OF pv [unfolded None] ih1(1) this] pv None loop(1)
    show ?thesis by (simp add: parseArray.simps)
  qed
next
  case (props ps p)
  show ?case
  proof (cases "readString String p")
    case (Pair r1 p1)
    from readString_resolved [OF Pair] props(3) have ok1: "resolved p1" by simp
    show ?thesis
    proof (cases r1)
      case (Inl e)
      with Pair ok1 show ?thesis by (simp add: parseProperties.simps)
    next
      case I1: (Inr b)
      obtain s n where b: "b = (s, n)" by (cases b)
      show ?thesis
      proof (cases "readBytes 1 p1")
        case P2: (Pair r2 p2)
        from readBytes_resolved [OF P2] ok1 have ok2: "resolved p2" by simp
        show ?thesis
        proof (cases r2)
          case (Inl e)
          with Pair I1 b P2 ok2 show ?thesis by (simp add: parseProperties.simps)
        next
          case I2: (Inr d)
          show ?thesis
          proof (cases "n = 0")
            case True
            with Pair I1 b P2 I2 ok2 props(4) show ?thesis by (simp add: parseProperties.simps)
          next
            case False
            obtain e v p3 where pv: "parseValue (MkValue (d ! 0) s Nil) p2 = (e, v, p3)"
              by (cases "parseValue (MkValue (d ! 0) s Nil) p2") auto
            from props(1) [OF Pair [unfolded I1 b] False P2 [unfolded I2] ok2] pv
            have ih1: "resolved p3" "e = None \<Longrightarrow> noReference v" by simp_all
            show ?thesis
            proof (cases e)
              case (Some a)
              with Pair I1 b P2 I2 False pv ih1 show ?thesis by (simp add: parseProperties.simps)
            next
              case None
              from props(4) ih1(2) [OF None] have "list_all noReference (ps @ [v])" by simp
              from props(2) [OF Pair [unfolded I1 b] False P2 [unfolded I2] pv [unfolded None] ih1(1) this]
                Pair I1 b P2 I2 False pv None
              show ?thesis by (simp add: parseProperties.simps)
            qed
          qed
        qed
      qed
    qed
  qed
qed

lemma Parse_resolved:
  assumes "resolved p"
  shows "resolved (snd (Parse p))"
    and "Parse p = ((Some v, n, None), p') \<Longrightarrow> noReference v"
proof -
  obtain r1 p1 where rb: "readBytes 1 p = (r1, p1)" by (cases "readBytes 1 p")
  from readBytes_resolved [OF rb] assms have ok1: "resolved p1" by simp
  show "resolved (snd (Parse p))"
  proof (cases r1)
    case (Inl e)
    with rb ok1 show ?thesis by (simp add: Parse_def)
  next
    case (Inr d)
    from decode_resolved(1) [OF ok1, of "MkValue (d ! 0) [] Nil"] rb Inr show ?thesis
      by (cases "parseValue (MkValue (d ! 0) [] Nil) p1")
         (auto simp: Parse_def Let_def split: option.splits)
  qed
  show "noReference v" if "Parse p = ((Some v, n, None), p')"
  proof (cases r1)
    case (Inl e)
    with rb that show ?thesis by (simp add: Parse_def)
  next
    case (Inr d)
    from decode_resolved(1) [OF ok1, of "MkValue (d ! 0) [] Nil"] rb Inr that show ?thesis
      by (cases "parseValue (MkValue (d ! 0) [] Nil) p1")
         (auto simp: Parse_def Let_def split: option.splits)
  qed
qed

lemma after_calls_resolved: "resolved (after_calls k (New r))"
proof (induction k)
  case 0
  show ?case by (simp add: New_def resolved_def)
next
  case (Suc k)
  then show ?case by (simp add: Parse_resolved(1))
qed

subsection \<open>The loop of the \<open>StrictArray\<close> case\<close>

lemma parseArray_result:
  "parseArray i len m vs p = (Inr vs', p') \<Longrightarrow>
     (\<exists>ws. vs' = vs @ ws \<and> length ws = len - i \<and>
           (m \<noteq> Reference \<longrightarrow> (\<forall>x \<in> set ws. Marker x = m)) \<and>
           (m = Reference \<longrightarrow> references p' = references p \<and>
              (\<forall>x \<in> set ws. \<exists>r \<in> set (references p). Marker x = Marker r \<and> Value x = Value r)))"
proof -
  let ?Q = "\<lambda>i len m vs p. \<forall>vs' p'. parseArray i len m vs p = (Inr vs', p') \<longrightarrow>
     (\<exists>ws. vs' = vs @ ws \<and> length ws = len - i \<and>
           (m \<noteq> Reference \<longrightarrow> (\<forall>x \<in> set ws. Marker x = m)) \<and>
           (m = Reference \<longrightarrow> references p' = references p \<and>
              (\<forall>x \<in> set ws. \<exists>r \<in> set (references p). Marker x = Marker r \<and> Value x = Value r)))"
  have "?Q i len m vs p"
  proof (rule decode_induct(2) [where P = "\<lambda>_ _. True" and R = "\<lambda>_ _. True" and Q = ?Q])
    fix i len :: nat and m :: Marker and vs :: "Value list" and p :: Parser
    assume "\<not> i < len"
    then show "?Q i len m vs p" by (simp add: parseArray.simps)
  next
    fix i len :: nat and m :: Marker and vs :: "Value list" and p :: Parser
    assume lt: "i < len"
      and ih: "\<And>v p1. parseValue (MkValue m [] Nil) p = (None, v, p1) \<Longrightarrow> ?Q (i + 1) len m (vs @ [v]) p1"
    show "?Q i len m vs p"
    proof (intro allI impI)
      fix vs' p'
      assume pa: "parseArray i len m vs p = (Inr vs', p')"
      obtain e v p1 where pv: "parseValue (MkValue m [] Nil) p = (e, v, p1)"
        by (cases "parseValue (MkValue m [] Nil) p") auto
      from pa pv lt have e: "e = None" by (cases e) (simp_all add: parseArray.simps)
      from pa pv lt e have pa': "parseArray (i + 1) len m (vs @ [v]) p1 = (Inr vs', p')"
        by (simp add: parseArray.simps)
      from ih [OF pv [unfolded e]] pa' obtain ws where ws: "vs' = (vs @ [v]) @ ws"
        "length ws = len - (i + 1)"
        "m \<noteq> Reference \<Longrightarrow> \<forall>x \<in> set ws. Marker x = m"
        "m = Reference \<Longrightarrow> references p' = references p1 \<and>
           (\<forall>x \<in> set ws. \<exists>r \<in> set (references p1). Marker x = Marker r \<and> Value x = Value r)"
        by blast
      have v1: "Marker v = m" if "m \<noteq> Reference"
        using parseValue_shape [OF pv] that by simp
      have v2: "references p1 = references p \<and>
          (\<exists>r \<in> set (references p). Marker v = Marker r \<and> Value v = Value r)" if "m = Reference"
        using parseValue_Reference_success [OF _ pv [unfolded e]] that by simp
      show "\<exists>ws. vs' = vs @ ws \<and> length ws = len - i \<and>
           (m \<noteq> Reference \<longrightarrow> (\<forall>x \<in> set ws. Marker x = m)) \<and>
           (m = Reference \<longrightarrow> references p' = references p \<and>
              (\<forall>x \<in> set ws. \<exists>r \<in> set (references p). Marker x = Marker r \<and> Value x = Value r))"
      proof (intro exI [of _ "v # ws"] conjI impI)
        show "vs' = vs @ v # ws" using ws(1) by simp
        show "length (v # ws) = len - i" using ws(2) lt by simp
        show "\<forall>x \<in> set (v # ws). Marker x = m" if "m \<noteq> Reference"
          using v1 [OF that] ws(3) [OF that] by simp
        show "references p' = references p" if "m = Reference"
          using v2 [OF that] ws(4) [OF that] by simp
        show "\<forall>x \<in> set (v # ws). \<exists>r \<in> set (references p). Marker x = Marker r \<and> Value x = Value r"
          if "m = Reference"
          using v2 [OF that] ws(4) [OF that] by simp
      qed
    qed
  qed simp_all
  then show "parseArray i len m vs p = (Inr vs', p') \<Longrightarrow> ?thesis" by blast
qed

section \<open>The claims\<close>

text \<open>
  C1. The claim: on every input on which \<^verbatim>\<open>Parse\<close> fails, the byte count it returns is
  the number of bytes consumed before the failure; for the bytes \<open>07 00 00\<close> and an empty
  reference table, \<^verbatim>\<open>Parse\<close> fails with \<open>InvalidReference\<close> and returns the count 3.
  On that input the code fails with \<open>InvalidReference\<close> and has counted 3 bytes in
  \<^verbatim>\<open>p.bytesRead\<close>, but the count it returns is 0: the named result \<^verbatim>\<open>bytesRead\<close> is
  assigned by the \<^verbatim>\<open>return\<close> statement only, which a panic skips.
\<close>

theorem Parse_reference_on_empty_table:
  "Parse (New [0x07, 0x00, 0x00]) =
     ((Some (MkValue Reference [] Nil), 0, Some InvalidReference),
      \<lparr>reader = [], references = [], bytesRead = 3\<rparr>)"
  by (simp add: Parse_def New_def readBytes_def parseValue.simps Marker_defs Uint16_def Let_def)




text \<open>
  C3. The claim: every call of \<^verbatim>\<open>Parse\<close> begins with an empty reference table of its own,
  and entries appended during one call are not visible to a later call on the same Parser.
  As amended: the reference table belongs to the Parser. \<^verbatim>\<open>New\<close> creates it empty, and a
  call of \<^verbatim>\<open>Parse\<close>, whether it succeeds or fails, starts from the table the earlier
  calls left and only appends to it.
\<close>

theorem references_owned_by_Parser:
  "references (New r) = [] \<and> prefix (references p) (references (snd (Parse p)))"
  using Parse_advanced [of p] by (simp add: New_def advanced_def Let_def)

text \<open>
  The claim as stated fails: after an object has been decoded by a first call, a second call on
  the same Parser starts with that object in the table and resolves the reference \<open>07 00 00\<close>
  to it.
\<close>

theorem references_persist_across_Parse_calls:
  "Parse (New [0x03, 0x00, 0x00, 0x09, 0x07, 0x00, 0x00]) =
     ((Some (MkValue Object [] (Values [])), 4, None),
      \<lparr>reader = [0x07, 0x00, 0x00], references = [MkValue Object [] (Values [])], bytesRead = 4\<rparr>) \<and>
   Parse \<lparr>reader = [0x07, 0x00, 0x00], references = [MkValue Object [] (Values [])], bytesRead = 4\<rparr> =
     ((Some (MkValue Object [] (Values [])), 7, None),
      \<lparr>reader = [], references = [MkValue Object [] (Values [])], bytesRead = 7\<rparr>)"
  by (simp add: Parse_def New_def readBytes_def readString_def parseValue.simps parseProperties.simps
      Marker_defs Uint16_def Let_def set_Value_def set_Marker_def)

text \<open>
  C4. Decoding a value with the \<^verbatim>\<open>Reference\<close> marker whose two-byte big-endian index is
  greater than or equal to the length of the reference table fails with \<open>InvalidReference\<close>:
  \<^verbatim>\<open>parseValue\<close> ends with that error after the two bytes, and \<^verbatim>\<open>Parse\<close> returns it as
  its error. When the index is less than the length of the table, the decoding does not fail.
\<close>

theorem Reference_index_out_of_range:
  assumes "Marker v = Reference" and "reader p = hi # lo # rest"
  shows "(length (references p) \<le> unat (Uint16 [hi, lo]) \<longrightarrow>
            parseValue v p = (Some InvalidReference, v, p\<lparr>reader := rest, bytesRead := bytesRead p + 2\<rparr>) \<and>
            Parse (p\<lparr>reader := Reference # hi # lo # rest\<rparr>) =
              ((Some (MkValue Reference [] Nil), 0, Some InvalidReference),
               p\<lparr>reader := rest, bytesRead := bytesRead p + 3\<rparr>)) \<and>
         (unat (Uint16 [hi, lo]) < length (references p) \<longrightarrow> fst (parseValue v p) = None)"
  using assms Parse_Reference [of "p\<lparr>reader := Reference # hi # lo # rest\<rparr>" hi lo rest]
  by (simp add: parseValue_Reference readBytes_2 Let_def index_check)

theorem Reference_index_out_of_range_witness:
  "parseValue (MkValue Reference [] Nil) (New [0x00, 0x00]) =
     (Some InvalidReference, MkValue Reference [] Nil, \<lparr>reader = [], references = [], bytesRead = 2\<rparr>) \<and>
   Parse (New [0x07, 0x00, 0x00]) =
     ((Some (MkValue Reference [] Nil), 0, Some InvalidReference),
      \<lparr>reader = [], references = [], bytesRead = 3\<rparr>) \<and>
   fst (parseValue (MkValue Reference [] Nil)
          \<lparr>reader = [0x00, 0x00], references = [MkValue Object [] (Values [])], bytesRead = 0\<rparr>) = None"
proof -
  have u: "unat (Uint16 [0x00, 0x00]) = 0" by (simp add: Uint16_def)
  have m: "Marker (MkValue Reference [] Nil) = Reference" by simp
  from Reference_index_out_of_range [OF m, of "New [0x00, 0x00]" 0 0 "[]"]
    Reference_index_out_of_range [OF m, of "\<lparr>reader = [0x00, 0x00], references = [MkValue Object [] (Values [])], bytesRead = 0\<rparr>" 0 0 "[]"]
  show ?thesis by (simp add: New_def u Reference_def)
qed

text \<open>
  C5. When a value with the \<^verbatim>\<open>Reference\<close> marker and a valid index \<open>i\<close> is decoded, the
  resulting Value has the marker and the payload of entry \<open>i\<close> of the reference table, and
  keeps its own name.
\<close>

theorem Reference_copies_entry:
  assumes "Marker v = Reference" and "reader p = hi # lo # rest"
    and "unat (Uint16 [hi, lo]) = i" and "i < length (references p)"
  shows "parseValue v p =
           (None, MkValue (Marker (references p ! i)) (Name v) (Value (references p ! i)),
            p\<lparr>reader := rest, bytesRead := bytesRead p + 2\<rparr>)"
  using assms
  by (simp add: parseValue_Reference readBytes_2 Let_def index_check set_Marker_def set_Value_def)

theorem Reference_copies_entry_witness:
  "parseValue (MkValue Reference [0x62] Nil)
      \<lparr>reader = [0x00, 0x00], references = [MkValue Object [0x61] (Values [MkValue Null [0x63] Nil])], bytesRead = 9\<rparr> =
    (None, MkValue Object [0x62] (Values [MkValue Null [0x63] Nil]),
     \<lparr>reader = [], references = [MkValue Object [0x61] (Values [MkValue Null [0x63] Nil])], bytesRead = 11\<rparr>)"
proof -
  have u: "unat (Uint16 [0x00, 0x00]) = 0" by (simp add: Uint16_def)
  have m: "Marker (MkValue Reference [0x62] Nil) = Reference" by simp
  from Reference_copies_entry [OF m _ u, of "\<lparr>reader = [0x00, 0x00], references = [MkValue Object [0x61] (Values [MkValue Null [0x63] Nil])], bytesRead = 9\<rparr>" "[]"]
  show ?thesis by simp
qed

text \<open>
  C6. The claim: a \<^verbatim>\<open>StrictArray\<close> that decodes successfully, with declared count \<open>n\<close> and
  declared element marker \<open>m\<close>, has exactly \<open>n\<close> elements, each carrying the marker \<open>m\<close>.
  As amended: it has exactly \<open>n\<close> elements; each carries the marker \<open>m\<close> unless \<open>m\<close> is
  \<^verbatim>\<open>Reference\<close>, in which case each element has the marker and the payload of an entry of
  the reference table.
\<close>

theorem StrictArray_elements:
  assumes "Marker v = StrictArray" and "parseValue v p = (None, v', p')"
  shows "\<exists>b0 b1 b2 b3 m rest vs.
           reader p = b0 # b1 # b2 # b3 # m # rest \<and> Value v' = Values vs \<and>
           length vs = unat (Uint32 [b0, b1, b2, b3]) \<and>
           (m \<noteq> Reference \<longrightarrow> (\<forall>x \<in> set vs. Marker x = m)) \<and>
           (m = Reference \<longrightarrow>
              (\<forall>x \<in> set vs. \<exists>r \<in> set (references p). Marker x = Marker r \<and> Value x = Value r))"
proof -
  obtain r1 p1 where rb4: "readBytes 4 p = (r1, p1)" by (cases "readBytes 4 p")
  with assms obtain d where r1: "r1 = Inr d"
    by (cases r1) (simp_all add: parseValue_StrictArray)
  obtain r2 p2 where rb1: "readBytes 1 p1 = (r2, p2)" by (cases "readBytes 1 p1")
  with assms rb4 r1 obtain d' where r2: "r2 = Inr d'"
    by (cases r2) (simp_all add: parseValue_StrictArray Let_def)
  obtain r3 p3 where pa: "parseArray 0 (unat (Uint32 d)) (d' ! 0) [] p2 = (r3, p3)"
    by (cases "parseArray 0 (unat (Uint32 d)) (d' ! 0) [] p2")
  with assms rb4 r1 rb1 r2 obtain vs where r3: "r3 = Inr vs" and v': "v' = set_Value v (Values vs)"
    by (cases r3) (simp_all add: parseValue_StrictArray Let_def)
  from readBytes_4 [OF rb4 [unfolded r1]] obtain b0 b1 b2 b3
    where d: "d = [b0, b1, b2, b3]" and rd: "reader p = b0 # b1 # b2 # b3 # reader p1" by blast
  from readBytes_1_Inr [OF rb1 [unfolded r2]] obtain m
    where d': "d' = [m]" and rd1: "reader p1 = m # reader p2" and refs1: "references p2 = references p1"
    by blast
  from readBytes_advanced [OF rb4] refs1 have refs: "references p2 = references p" by simp
  from parseArray_result [OF pa [unfolded r3]] d d' refs
  have "length vs = unat (Uint32 [b0, b1, b2, b3])"
    "m \<noteq> Reference \<longrightarrow> (\<forall>x \<in> set vs. Marker x = m)"
    "m = Reference \<longrightarrow>
       (\<forall>x \<in> set vs. \<exists>r \<in> set (references p). Marker x = Marker r \<and> Value x = Value r)"
    by auto
  with rd rd1 v' show ?thesis by auto
qed

theorem StrictArray_elements_witness:
  "parseValue (MkValue StrictArray [] Nil) (New [0x00, 0x00, 0x00, 0x02, 0x01, 0x00, 0x07]) =
     (None, MkValue StrictArray [] (Values [MkValue Boolean [] (Bool False), MkValue Boolean [] (Bool True)]),
      \<lparr>reader = [], references = [], bytesRead = 7\<rparr>) \<and>
   (\<exists>b0 b1 b2 b3 m rest vs.
      reader (New [0x00, 0x00, 0x00, 0x02, 0x01, 0x00, 0x07]) = b0 # b1 # b2 # b3 # m # rest \<and>
      Values [MkValue Boolean [] (Bool False), MkValue Boolean [] (Bool True)] = Values vs \<and>
      length vs = unat (Uint32 [b0, b1, b2, b3]))"
proof -
  have m: "Marker (MkValue StrictArray [] Nil) = StrictArray" by simp
  have h: "parseValue (MkValue StrictArray [] Nil) (New [0x00, 0x00, 0x00, 0x02, 0x01, 0x00, 0x07]) =
     (None, MkValue StrictArray [] (Values [MkValue Boolean [] (Bool False), MkValue Boolean [] (Bool True)]),
      \<lparr>reader = [], references = [], bytesRead = 7\<rparr>)"
    by (simp add: New_def readBytes_def parseValue.simps parseArray.simps
        Marker_defs Uint32_def Let_def set_Value_def)
  from StrictArray_elements [OF m h] h show ?thesis by auto
qed

text \<open>
  The claim as stated fails: in the object decoded here, property \<open>b\<close> is an array of one
  element with declared element marker \<open>07\<close>; its element is the object registered for
  property \<open>a\<close> and carries the marker \<^verbatim>\<open>Object\<close>.
\<close>

theorem StrictArray_of_Reference_elements:
  "fst (Parse (New [0x03, 0x00, 0x01, 0x61, 0x03, 0x00, 0x00, 0x09,
                    0x00, 0x01, 0x62, 0x0A, 0x00, 0x00, 0x00, 0x01, 0x07, 0x00, 0x00,
                    0x00, 0x00, 0x09])) =
     (Some (MkValue Object []
        (Values [MkValue Object [0x61] (Values []),
                 MkValue StrictArray [0x62] (Values [MkValue Object [] (Values [])])])),
      22, None) \<and>
   Marker (MkValue Object [] (Values [])) \<noteq> 0x07"
  by (simp add: Parse_def New_def readBytes_def readString_def parseValue.simps parseArray.simps
      parseProperties.simps Marker_defs Uint16_def Uint32_def Let_def set_Value_def set_Marker_def)

text \<open>
  C7. No Value of a tree returned by a successful call of \<^verbatim>\<open>Parse\<close> carries the
  \<^verbatim>\<open>Reference\<close> marker. The call may be the first on a Parser made by \<^verbatim>\<open>New\<close> or
  follow any number of earlier calls.
\<close>

theorem no_Reference_in_result:
  "Parse (after_calls k (New r)) = ((Some v, n, None), p') \<Longrightarrow> noReference v"
  using after_calls_resolved [of k r] by (rule Parse_resolved(2))

theorem no_Reference_in_result_witness:
  "Parse (after_calls 1 (New [0x03, 0x00, 0x00, 0x09, 0x07, 0x00, 0x00])) =
     ((Some (MkValue Object [] (Values [])), 7, None),
      \<lparr>reader = [], references = [MkValue Object [] (Values [])], bytesRead = 7\<rparr>) \<and>
   noReference (MkValue Object [] (Values []))"
proof -
  have h: "Parse (after_calls 1 (New [0x03, 0x00, 0x00, 0x09, 0x07, 0x00, 0x00])) =
     ((Some (MkValue Object [] (Values [])), 7, None),
      \<lparr>reader = [], references = [MkValue Object [] (Values [])], bytesRead = 7\<rparr>)"
    by (simp add: Parse_def New_def readBytes_def readString_def parseValue.simps parseProperties.simps
      Marker_defs Uint16_def Let_def set_Value_def set_Marker_def)
  from no_Reference_in_result [of 1, OF h] h show ?thesis by simp
qed



text \<open>
  C9. In a property list, when the decoded key has length zero, the next byte decides: if it is
  \<^verbatim>\<open>ObjectEnd\<close> the list ends successfully with the properties accumulated so far,
  otherwise the decoding fails with \<open>MalformedStream\<close>.
\<close>

theorem zero_length_key_ends_list:
  assumes "readString String p = (Inr (name, 0), p')" and "reader p' = b # rest"
  shows "parseProperties properties p =
           (if b = ObjectEnd then Inr properties else Inl MalformedStream,
            p'\<lparr>reader := rest, bytesRead := bytesRead p' + 1\<rparr>)"
  using assms by (simp add: parseProperties.simps readBytes_1)

theorem zero_length_key_ends_list_witness:
  "parseProperties [MkValue Null [0x61] Nil] (New [0x00, 0x00, 0x09]) =
     (Inr [MkValue Null [0x61] Nil], \<lparr>reader = [], references = [], bytesRead = 3\<rparr>) \<and>
   parseProperties [MkValue Null [0x61] Nil] (New [0x00, 0x00, 0x05]) =
     (Inl MalformedStream, \<lparr>reader = [], references = [], bytesRead = 3\<rparr>)"
proof -
  let ?q = "\<lambda>b :: byte. \<lparr>reader = [b], references = [], bytesRead = 2\<rparr>"
  have r9: "readString String (New [0x00, 0x00, 0x09]) = (Inr ([], 0), ?q 0x09)"
    by (simp add: readString_def readBytes_def New_def Let_def Uint16_def)
  have r5: "readString String (New [0x00, 0x00, 0x05]) = (Inr ([], 0), ?q 0x05)"
    by (simp add: readString_def readBytes_def New_def Let_def Uint16_def)
  have t9: "reader (?q 0x09) = 0x09 # []" and t5: "reader (?q 0x05) = 0x05 # []"
    by simp_all
  from zero_length_key_ends_list [OF r9 t9] zero_length_key_ends_list [OF r5 t5]
  show ?thesis by (simp add: ObjectEnd_def)
qed

text \<open>
  C10. The counter \<^verbatim>\<open>bytesRead\<close> of the Parser is never reset. \<^verbatim>\<open>readBytes\<close> adds to it
  the number of bytes it obtained, also when it then fails, and so does every call of
  \<^verbatim>\<open>Parse\<close>. The count returned by a successful call that follows \<open>k\<close> earlier calls on
  the same Parser is the counter before the first of them plus all bytes consumed since.
\<close>

theorem bytesRead_never_reset:
  "bytesRead (snd (readBytes len p)) =
     bytesRead p + int (length (reader p) - length (reader (snd (readBytes len p)))) \<and>
   bytesRead (snd (Parse p)) =
     bytesRead p + int (length (reader p) - length (reader (snd (Parse p)))) \<and>
   (Parse (after_calls k p) = ((v, n, None), p') \<longrightarrow>
      n = bytesRead p + int (length (reader p) - length (reader p')) \<and>
      reader p' = drop (length (reader p) - length (reader p')) (reader p))"
proof (intro conjI impI)
  show "bytesRead (snd (readBytes len p)) =
     bytesRead p + int (length (reader p) - length (reader (snd (readBytes len p))))"
    using readBytes_advanced [of len p] by (cases "readBytes len p") (simp add: advanced_def Let_def)
  show "bytesRead (snd (Parse p)) =
     bytesRead p + int (length (reader p) - length (reader (snd (Parse p))))"
    using Parse_advanced [of p] by (simp add: advanced_def Let_def)
next
  assume a: "Parse (after_calls k p) = ((v, n, None), p')"
  from Parse_advanced [of "after_calls k p"] a have "advanced (after_calls k p) p'" by simp
  with after_calls_advanced [of p k] have adv: "advanced p p'" by (rule advanced_trans)
  from Parse_success_count [OF a] have n: "n = bytesRead p'" .
  from adv n show "n = bytesRead p + int (length (reader p) - length (reader p'))"
    by (simp add: advanced_def Let_def)
  from adv show "reader p' = drop (length (reader p) - length (reader p')) (reader p)"
    by (simp add: advanced_def Let_def)
qed

text \<open>
  A call that fails after three bytes, followed by a call that decodes one byte and returns the
  count 4; and a read of six bytes that obtains four.
\<close>

theorem bytesRead_never_reset_witness:
  "readBytes 6 (New [0x07, 0x00, 0x00, 0x05]) =
     (Inl ErrUnexpectedEOF, \<lparr>reader = [], references = [], bytesRead = 4\<rparr>) \<and>
   Parse (New [0x07, 0x00, 0x00, 0x05]) =
     ((Some (MkValue Reference [] Nil), 0, Some InvalidReference),
      \<lparr>reader = [0x05], references = [], bytesRead = 3\<rparr>) \<and>
   Parse (after_calls 1 (New [0x07, 0x00, 0x00, 0x05])) =
     ((Some (MkValue Null [] Nil), 4, None), \<lparr>reader = [], references = [], bytesRead = 4\<rparr>) \<and>
   (4::int) = bytesRead (New [0x07, 0x00, 0x00, 0x05]) +
              int (length (reader (New [0x07, 0x00, 0x00, 0x05])) - length ([] :: byte list))"
proof -
  have f: "Parse (New [0x07, 0x00, 0x00, 0x05]) =
     ((Some (MkValue Reference [] Nil), 0, Some InvalidReference),
      \<lparr>reader = [0x05], references = [], bytesRead = 3\<rparr>)"
    by (simp add: Parse_def New_def readBytes_def parseValue.simps Marker_defs Uint16_def Let_def)
  have h: "Parse (after_calls 1 (New [0x07, 0x00, 0x00, 0x05])) =
     ((Some (MkValue Null [] Nil), 4, None), \<lparr>reader = [], references = [], bytesRead = 4\<rparr>)"
    by (simp add: f) (simp add: Parse_def readBytes_def parseValue.simps Marker_defs Let_def set_Value_def)
  have r: "readBytes 6 (New [0x07, 0x00, 0x00, 0x05]) =
     (Inl ErrUnexpectedEOF, \<lparr>reader = [], references = [], bytesRead = 4\<rparr>)"
    by (simp add: readBytes_def New_def Let_def)
  from bytesRead_never_reset [where k = 1 and p = "New [0x07, 0x00, 0x00, 0x05]", THEN conjunct2,
      THEN conjunct2, THEN mp, OF h] f h r
  show ?thesis by simp
qed

end
